theory Spec2Isabelle
  imports Main "HOL-Library.AList"
begin

section \<open>The patent page parser (src/patent\_fetcher/parse.py)\<close>

text \<open>
  The parser walks a BeautifulSoup tree and builds a nested dictionary. The embedding
  takes the tree as its input: a tag has an identity (what Python's \<open>id(tag)\<close> returns),
  a name, its attribute dictionary and its contents; a text run is a string. Attribute
  values are strings, or lists of strings for the multi-valued attributes (\<open>class\<close>).
  Text is ASCII: the character classes of Python beyond ASCII are not part of the
  embedding.
\<close>

subsection \<open>Python strings\<close>

definition is_space :: "char \<Rightarrow> bool" where
  "is_space c = (let n = (of_char c :: nat) in (9 \<le> n \<and> n \<le> 13) \<or> (28 \<le> n \<and> n \<le> 32))"

definition is_upper :: "char \<Rightarrow> bool" where
  "is_upper c = (let n = (of_char c :: nat) in 65 \<le> n \<and> n \<le> 90)"

definition is_lower :: "char \<Rightarrow> bool" where
  "is_lower c = (let n = (of_char c :: nat) in 97 \<le> n \<and> n \<le> 122)"

definition is_digit :: "char \<Rightarrow> bool" where
  "is_digit c = (let n = (of_char c :: nat) in 48 \<le> n \<and> n \<le> 57)"

definition isalnum :: "char \<Rightarrow> bool" where
  "isalnum c = (is_upper c \<or> is_lower c \<or> is_digit c)"

definition lower_char :: "char \<Rightarrow> char" where
  "lower_char c = (if is_upper c then char_of ((of_char c :: nat) + 32) else c)"

definition upper_char :: "char \<Rightarrow> char" where
  "upper_char c = (if is_lower c then char_of ((of_char c :: nat) - 32) else c)"

definition lower :: "string \<Rightarrow> string" where
  "lower s = map lower_char s"

text \<open>\<open>str.capitalize\<close>: the first character in upper case, the rest in lower case.\<close>

fun capitalize :: "string \<Rightarrow> string" where
  "capitalize [] = []"
| "capitalize (c # cs) = upper_char c # map lower_char cs"

text \<open>\<open>str.strip()\<close> removes the white space at both ends.\<close>

definition strip :: "string \<Rightarrow> string" where
  "strip s = rev (dropWhile is_space (rev (dropWhile is_space s)))"

text \<open>
  \<open>str.split()\<close> cuts at runs of white space and yields no empty word. The second
  argument is the word being read.
\<close>

fun split_from :: "string \<Rightarrow> string \<Rightarrow> string list" where
  "split_from [] w = (if w = [] then [] else [w])"
| "split_from (c # cs) w =
     (if is_space c then (if w = [] then split_from cs [] else w # split_from cs [])
      else split_from cs (w @ [c]))"

definition split :: "string \<Rightarrow> string list" where
  "split s = split_from s []"

text \<open>\<open>needle in haystack\<close> for two strings: a contiguous occurrence.\<close>

fun str_contains :: "string \<Rightarrow> string \<Rightarrow> bool" where
  "str_contains [] needle = (needle = [])"
| "str_contains (c # cs) needle =
     (take (length needle) (c # cs) = needle \<or> str_contains cs needle)"

subsection \<open>The document tree\<close>

datatype attr_value = AStr string | AList "string list"

datatype node =
    Tag (tag_id: nat) (tag_name: string) (tag_attrs: "(string \<times> attr_value) list")
      (contents: "node list")
  | Text string

text \<open>Values of the output dictionary; \<open>VNone\<close> is Python's \<open>None\<close>.\<close>

datatype val = VNone | VStr string | VList "val list" | VNode "(string \<times> val) list"

type_synonym pnode = "(string \<times> val) list"

datatype error =
    AssertionError nat
  | KeyError string
  | AttributeError string
  | IndexError

fun attr_val :: "attr_value \<Rightarrow> val" where
  "attr_val (AStr s) = VStr s"
| "attr_val (AList xs) = VList (map VStr xs)"

text \<open>Python's truth value of an attribute value: the empty string and the empty list are false.\<close>

fun truthy :: "attr_value \<Rightarrow> bool" where
  "truthy (AStr s) = (s \<noteq> [])"
| "truthy (AList xs) = (xs \<noteq> [])"

text \<open>\<open>tag.get(key)\<close> is \<open>map_of attrs key\<close>; \<open>tag.has_attr(key)\<close>:\<close>

definition has_attr :: "(string \<times> attr_value) list \<Rightarrow> string \<Rightarrow> bool" where
  "has_attr attrs key = (map_of attrs key \<noteq> None)"

text \<open>\<open>dict(pairs)\<close>: a later pair replaces the value of an equal earlier key.\<close>

definition dict :: "(string \<times> val) list \<Rightarrow> pnode" where
  "dict kvs = foldl (\<lambda>d kv. AList.update (fst kv) (snd kv) d) [] kvs"

text \<open>
  \<open>tag.string\<close> of BeautifulSoup: the single text run of a tag, looked for through
  single tag children; \<open>None\<close> when a tag on the way has no or several children.
\<close>

fun bs4_string :: "node \<Rightarrow> string option" where
  "bs4_string (Text s) = Some s"
| "bs4_string (Tag i nm attrs []) = None"
| "bs4_string (Tag i nm attrs [c]) = bs4_string c"
| "bs4_string (Tag i nm attrs (c # d # cs)) = None"

text \<open>\<open>tag.get_text(strip=True)\<close>: every text run below the tag, stripped, the empty ones
  dropped, joined with no separator.\<close>

fun all_strings :: "node \<Rightarrow> string list" where
  "all_strings (Text s) = [s]"
| "all_strings (Tag i nm attrs cs) = concat (map all_strings cs)"

definition get_text :: "node \<Rightarrow> string" where
  "get_text t = concat (filter (\<lambda>s. s \<noteq> []) (map strip (all_strings t)))"

subsection \<open>Tag predicates\<close>

definition START_TAGS :: "string list" where
  "START_TAGS = [''dt'', ''h2'']"

fun has_class :: "node \<Rightarrow> string \<Rightarrow> bool" where
  "has_class (Tag i nm attrs cs) class_name =
     (case map_of attrs ''class'' of
        None \<Rightarrow> False
      | Some (AStr s) \<Rightarrow> s \<noteq> [] \<and> str_contains s class_name
      | Some (AList xs) \<Rightarrow> class_name \<in> set xs)"
| "has_class (Text s) class_name = False"

subsection \<open>The label normalizer\<close>

text \<open>
  The loop of \<open>parse_label\<close> over \<open>enumerate(raw.split())\<close>: \<open>i\<close> is the index,
  \<open>parts\<close> the words kept so far. \<open>part[0]\<close> raises IndexError on an empty word.
\<close>

fun label_loop :: "nat \<Rightarrow> string list \<Rightarrow> string list \<Rightarrow> error + string list" where
  "label_loop i [] parts = Inr parts"
| "label_loop i (part # rest) parts =
     (case part of
        [] \<Rightarrow> Inl IndexError
      | c # cs \<Rightarrow>
          if \<not> isalnum c then Inr parts
          else if i = 0 then label_loop (Suc i) rest (parts @ [lower part])
          else label_loop (Suc i) rest (parts @ [capitalize part]))"

definition parse_label :: "node \<Rightarrow> error + string" where
  "parse_label tag =
     (case bs4_string tag of
        None \<Rightarrow> Inr []
      | Some raw \<Rightarrow>
          (case label_loop 0 (split (strip raw)) [] of
             Inl e \<Rightarrow> Inl e
           | Inr parts \<Rightarrow> Inr (concat parts)))"


subsection \<open>The recursive property walker\<close>

text \<open>
  \<open>v = tag.get(key)\<close> followed by a test of \<open>v\<close>'s truth value: a missing attribute,
  an empty string and an empty list all count as absent.
\<close>

definition get_truthy :: "(string \<times> attr_value) list \<Rightarrow> string \<Rightarrow> attr_value option" where
  "get_truthy attrs key =
     (case map_of attrs key of
        None \<Rightarrow> None
      | Some v \<Rightarrow> if truthy v then Some v else None)"

text \<open>The text case of \<open>property_value\<close>: \<open>tag.string\<close>, stripped, or \<open>None\<close> with a warning.\<close>

definition text_value :: "node \<Rightarrow> val" where
  "text_value tag = (case bs4_string tag of None \<Rightarrow> VNone | Some text \<Rightarrow> VStr (strip text))"

text \<open>
  Lines 82 to 89 of \<open>parse_properties\<close>: a property with a \<open>repeat\<close> attribute is
  appended to the list under its name, any other property is assigned. \<open>append\<close> on a
  value that is not a list raises AttributeError.
\<close>

definition store_property ::
  "(string \<times> attr_value) list \<Rightarrow> string \<Rightarrow> val \<Rightarrow> pnode \<Rightarrow> error + pnode" where
  "store_property attrs property_name v current_node =
     (if has_attr attrs ''repeat'' then
        (case map_of current_node property_name of
           None \<Rightarrow> Inr (AList.update property_name (VList [v]) current_node)
         | Some (VList vs) \<Rightarrow> Inr (AList.update property_name (VList (vs @ [v])) current_node)
         | Some other \<Rightarrow> Inl (AttributeError ''append''))
      else Inr (AList.update property_name v current_node))"

text \<open>
  \<open>hack\<close> is the module's set of the identities of the tags seen so far; every
  function of the walker takes it and returns it updated, together with the dictionary
  it fills. A tag is passed with its following siblings (\<open>tag.next_siblings\<close>); the
  loops over \<open>tag.children\<close> and \<open>tag.next_siblings\<close> take what is left of the
  sequence. A text run is never passed to \<open>parse_properties\<close> or \<open>property_value\<close>
  (the loops skip what is not a tag); their equations for it are never used.
\<close>

function (sequential) parse_properties :: "nat set \<Rightarrow> node \<Rightarrow> node list \<Rightarrow> pnode \<Rightarrow> error + (nat set \<times> pnode)"
  and property_value :: "nat set \<Rightarrow> node \<Rightarrow> error + (nat set \<times> val)"
  and parse_children_properties :: "nat set \<Rightarrow> node list \<Rightarrow> pnode \<Rightarrow> error + (nat set \<times> pnode)"
  and parse_siblings_properties :: "nat set \<Rightarrow> node list \<Rightarrow> pnode \<Rightarrow> error + (nat set \<times> pnode)"
where
  "parse_properties hack (Text s) sibs current_node = Inr (hack, current_node)"
| "parse_properties hack (Tag i nm attrs cs) sibs current_node =
     (if i \<in> hack then Inr (hack, current_node)
      else if nm \<in> set START_TAGS then
        (case parse_label (Tag i nm attrs cs) of
           Inl e \<Rightarrow> Inl e
         | Inr label \<Rightarrow>
             (case parse_siblings_properties (insert i hack) sibs [] of
                Inl e \<Rightarrow> Inl e
              | Inr (hack', child_node) \<Rightarrow>
                  Inr (hack', AList.update label (VNode child_node) current_node)))
      else
        (case get_truthy attrs ''itemprop'' of
           None \<Rightarrow> parse_children_properties (insert i hack) cs current_node
         | Some (AList xs) \<Rightarrow> Inl (AssertionError 74)
         | Some (AStr property_name) \<Rightarrow>
             if nm = ''section'' then Inr (insert i hack, current_node)
             else
               (case property_value (insert i hack) (Tag i nm attrs cs) of
                  Inl e \<Rightarrow> Inl e
                | Inr (hack', v) \<Rightarrow>
                    (case store_property attrs property_name v current_node of
                       Inl e \<Rightarrow> Inl e
                     | Inr node' \<Rightarrow> Inr (hack', node')))))"
| "property_value hack (Text s) = Inr (hack, VNone)"
| "property_value hack (Tag i nm attrs cs) =
     (if has_attr attrs ''itemscope'' then
        (case parse_children_properties hack cs [] of
           Inl e \<Rightarrow> Inl e
         | Inr (hack', child_node) \<Rightarrow> Inr (hack', VNode child_node))
      else
        (case get_truthy attrs ''content'' of
           Some content \<Rightarrow> Inr (hack, attr_val content)
         | None \<Rightarrow>
             (case get_truthy attrs ''href'' of
                Some href \<Rightarrow> Inr (hack, attr_val href)
              | None \<Rightarrow>
                  (case get_truthy attrs ''src'' of
                     Some src \<Rightarrow> Inr (hack, attr_val src)
                   | None \<Rightarrow> Inr (hack, text_value (Tag i nm attrs cs))))))"
| "parse_children_properties hack [] current_node = Inr (hack, current_node)"
| "parse_children_properties hack (Text s # rest) current_node =
     parse_children_properties hack rest current_node"
| "parse_children_properties hack (Tag i nm attrs cs # rest) current_node =
     (case parse_properties hack (Tag i nm attrs cs) rest current_node of
        Inl e \<Rightarrow> Inl e
      | Inr (hack', node') \<Rightarrow> parse_children_properties hack' rest node')"
| "parse_siblings_properties hack [] current_node = Inr (hack, current_node)"
| "parse_siblings_properties hack (Text s # rest) current_node =
     parse_siblings_properties hack rest current_node"
| "parse_siblings_properties hack (Tag i nm attrs cs # rest) current_node =
     (if nm \<in> set START_TAGS then Inr (hack, current_node)
      else
        (case parse_properties hack (Tag i nm attrs cs) rest current_node of
           Inl e \<Rightarrow> Inl e
         | Inr (hack', node') \<Rightarrow> parse_siblings_properties hack' rest node'))"

  by pat_completeness auto

termination
  by (relation "measure (\<lambda>x. case x of
      Inl (Inl (h, t, sibs, n)) \<Rightarrow> 2 * (size t + size_list size sibs) + 1
    | Inl (Inr (h, t)) \<Rightarrow> 2 * size t
    | Inr (Inl (h, cs, n)) \<Rightarrow> 2 * size_list size cs
    | Inr (Inr (h, cs, n)) \<Rightarrow> 2 * size_list size cs)") simp_all

subsection \<open>Searching the tree\<close>

text \<open>
  A tag in its place: the tag, its following siblings and its ancestors, the parent
  first. \<open>walk ancs nodes\<close> lists the tags among \<open>nodes\<close> and below them in document
  order. The \<open>BeautifulSoup\<close> object above the top-level nodes has no attribute and
  is left out of the ancestors.
\<close>

type_synonym place = "node \<times> node list \<times> node list"

fun walk :: "node list \<Rightarrow> node list \<Rightarrow> place list" where
  "walk ancs [] = []"
| "walk ancs (Text s # rest) = walk ancs rest"
| "walk ancs (Tag i nm attrs cs # rest) =
     (Tag i nm attrs cs, rest, ancs) # walk (Tag i nm attrs cs # ancs) cs @ walk ancs rest"

text \<open>\<open>tag.find_all(f)\<close>: the descendants of \<open>tag\<close> that satisfy \<open>f\<close>; \<open>tag.find(f)\<close>
  is the first of them, \<open>tag.find_parent(f)\<close> the nearest ancestor that satisfies it.\<close>

definition find_all :: "(node \<Rightarrow> bool) \<Rightarrow> node \<Rightarrow> node list \<Rightarrow> place list" where
  "find_all f tag ancs = filter (\<lambda>p. f (fst p)) (walk (tag # ancs) (contents tag))"

definition find_first :: "(node \<Rightarrow> bool) \<Rightarrow> node \<Rightarrow> node list \<Rightarrow> place option" where
  "find_first f tag ancs = (case find_all f tag ancs of [] \<Rightarrow> None | p # ps \<Rightarrow> Some p)"

definition find_parent :: "(node \<Rightarrow> bool) \<Rightarrow> node list \<Rightarrow> node option" where
  "find_parent f ancs = List.find f ancs"

definition named :: "string \<Rightarrow> node \<Rightarrow> bool" where
  "named nm tag = (tag_name tag = nm)"

text \<open>The filter \<open>attrs={"class": c}\<close>: one of the classes is \<open>c\<close>, or the whole value is.\<close>

fun join_spaces :: "string list \<Rightarrow> string" where
  "join_spaces [] = []"
| "join_spaces [x] = x"
| "join_spaces (x # y # ys) = x @ '' '' @ join_spaces (y # ys)"

definition class_is :: "string \<Rightarrow> node \<Rightarrow> bool" where
  "class_is c tag =
     (case map_of (tag_attrs tag) ''class'' of
        None \<Rightarrow> False
      | Some (AStr s) \<Rightarrow> s = c
      | Some (AList xs) \<Rightarrow> c \<in> set xs \<or> join_spaces xs = c)"

subsection \<open>The section parsers\<close>

text \<open>
  A generator of fields is the list of the fields it yields; \<open>dict\<close> reads all of them,
  so a failure while they are produced is the failure of the whole.
\<close>

definition attrs_except_class :: "node \<Rightarrow> (string \<times> val) list" where
  "attrs_except_class tag =
     map (\<lambda>kv. (fst kv, attr_val (snd kv))) (filter (\<lambda>kv. fst kv \<noteq> ''class'') (tag_attrs tag))"

definition parse_abstract :: "node \<Rightarrow> node list \<Rightarrow> error + (string \<times> val) list" where
  "parse_abstract section ancs =
     (case find_first (named ''abstract'') section ancs of
        None \<Rightarrow> Inl (AssertionError 193)
      | Some (abstract, sibs, ancs') \<Rightarrow>
          Inr (map (\<lambda>kv. (fst kv, attr_val (snd kv))) (tag_attrs abstract)
               @ [(''content'', VStr (get_text abstract))]))"

definition is_target :: "node \<Rightarrow> bool" where
  "is_target tag = (tag_name tag = ''heading'' \<or> has_class tag ''description-line'')"

definition new_part :: "string \<Rightarrow> string \<times> val list" where
  "new_part heading = (heading, [])"

definition part_val :: "string \<times> val list \<Rightarrow> val" where
  "part_val part = VNode [(''heading'', VStr (fst part)), (''lines'', VList (snd part))]"

definition line_val :: "node \<Rightarrow> val" where
  "line_val tag =
     VNode [(''num'', (case map_of (tag_attrs tag) ''num'' of None \<Rightarrow> VNone | Some v \<Rightarrow> attr_val v)),
            (''text'', VStr (get_text tag))]"

text \<open>
  The loop of \<open>parse_description\<close> over the headings and lines found: \<open>parts\<close> are the
  closed parts, \<open>current_part\<close> is the open one, as a heading and its lines.
\<close>

fun parts_loop :: "node list \<Rightarrow> (string \<times> val list) list \<Rightarrow> string \<times> val list
    \<Rightarrow> (string \<times> val list) list" where
  "parts_loop [] parts current_part = parts @ [current_part]"
| "parts_loop (tag # rest) parts current_part =
     (if tag_name tag = ''heading''
      then parts_loop rest (parts @ [current_part]) (new_part (get_text tag))
      else parts_loop rest parts (fst current_part, snd current_part @ [line_val tag]))"

definition parse_description :: "node \<Rightarrow> node list \<Rightarrow> error + (string \<times> val) list" where
  "parse_description section ancs =
     (case find_first (class_is ''description'') section ancs of
        None \<Rightarrow> Inl (AssertionError 202)
      | Some (description, sibs, ancs') \<Rightarrow>
          Inr (attrs_except_class description
               @ [(''parts'',
                   VList (map part_val
                     (parts_loop (map fst (find_all is_target description ancs')) []
                        (new_part []))))]))"

text \<open>The loop of \<open>find_claims\<close>; \<open>seen_tags\<close> holds the identities of the claims met.\<close>

fun find_claims_loop :: "place list \<Rightarrow> nat set \<Rightarrow> error + node list" where
  "find_claims_loop [] seen_tags = Inr []"
| "find_claims_loop ((text_tag, sibs, ancs) # rest) seen_tags =
     (case find_parent (\<lambda>t. has_class t ''claim'') ancs of
        None \<Rightarrow> Inl (AssertionError 265)
      | Some claim \<Rightarrow>
          (case find_claims_loop rest (insert (tag_id claim) seen_tags) of
             Inl e \<Rightarrow> Inl e
           | Inr claims \<Rightarrow>
               Inr (if tag_id claim \<notin> seen_tags then claim # claims else claims)))"

definition find_claims :: "node \<Rightarrow> node list \<Rightarrow> error + node list" where
  "find_claims claims_tag ancs =
     find_claims_loop (find_all (\<lambda>t. has_class t ''claim-text'') claims_tag ancs) {}"

definition parse_claim :: "node \<Rightarrow> (string \<times> val) list" where
  "parse_claim claim = attrs_except_class claim @ [(''text'', VStr (get_text claim))]"

definition parse_claims :: "node \<Rightarrow> node list \<Rightarrow> error + (string \<times> val) list" where
  "parse_claims section ancs =
     (case find_first (\<lambda>t. has_class t ''claims'') section ancs of
        None \<Rightarrow> Inl (AssertionError 238)
      | Some (claims_tag, sibs, ancs') \<Rightarrow>
          (case find_claims claims_tag ancs' of
             Inl e \<Rightarrow> Inl e
           | Inr claims \<Rightarrow>
               Inr (attrs_except_class claims_tag
                    @ [(''claims'', VList (map (\<lambda>c. VNode (dict (parse_claim c))) claims))])))"

subsection \<open>The section dispatcher and the entry point\<close>

definition is_section :: "node \<Rightarrow> bool" where
  "is_section tag = (tag_name tag = ''section'' \<and> has_attr (tag_attrs tag) ''itemscope'')"

definition section_value :: "string \<Rightarrow> node \<Rightarrow> node list \<Rightarrow> error + val" where
  "section_value property_name section ancs =
     (if property_name = ''abstract'' then
        (case parse_abstract section ancs of Inl e \<Rightarrow> Inl e | Inr fs \<Rightarrow> Inr (VNode (dict fs)))
      else if property_name = ''description'' then
        (case parse_description section ancs of Inl e \<Rightarrow> Inl e | Inr fs \<Rightarrow> Inr (VNode (dict fs)))
      else if property_name = ''claims'' then
        (case parse_claims section ancs of Inl e \<Rightarrow> Inl e | Inr fs \<Rightarrow> Inr (VNode (dict fs)))
      else Inr VNone)"

fun sections_loop :: "place list \<Rightarrow> pnode \<Rightarrow> error + pnode" where
  "sections_loop [] current_node = Inr current_node"
| "sections_loop ((section, sibs, ancs) # rest) current_node =
     (case map_of (tag_attrs section) ''itemprop'' of
        None \<Rightarrow> Inl (KeyError ''itemprop'')
      | Some (AList xs) \<Rightarrow> Inl (AssertionError 175)
      | Some (AStr property_name) \<Rightarrow>
          (case section_value property_name section ancs of
             Inl e \<Rightarrow> Inl e
           | Inr v \<Rightarrow> sections_loop rest (AList.update property_name v current_node)))"

definition parse_sections :: "node \<Rightarrow> node list \<Rightarrow> pnode \<Rightarrow> error + pnode" where
  "parse_sections article ancs current_node =
     sections_loop (find_all is_section article ancs) current_node"

text \<open>
  \<open>parse_html\<close> on the tree that \<open>BeautifulSoup(html)\<close> built: \<open>soup\<close> is the list of
  its top-level nodes, \<open>soup.html\<close> the first tag named \<open>html\<close>. The module's \<open>hack\<close>
  is an argument and a result, since it lives on between calls. An error is the
  exception that ends the call; the identities added to \<open>hack\<close> before it are not
  part of the result of a failed call.
\<close>

definition parse_html :: "nat set \<Rightarrow> node list \<Rightarrow> error + (nat set \<times> pnode)" where
  "parse_html hack soup =
     (case filter (\<lambda>p. named ''html'' (fst p)) (walk [] soup) of
        [] \<Rightarrow> Inl (AssertionError 31)
      | (root, rsibs, rancs) # ps \<Rightarrow>
          (case find_first (named ''article'') root rancs of
             None \<Rightarrow> Inl (AssertionError 34)
           | Some (article, sibs, ancs) \<Rightarrow>
               (case parse_properties hack article sibs [] of
                  Inl e \<Rightarrow> Inl e
                | Inr (hack', data) \<Rightarrow>
                    (case parse_sections article ancs data of
                       Inl e \<Rightarrow> Inl e
                     | Inr data' \<Rightarrow> Inr (hack', data')))))"

section \<open>Reference definitions\<close>

text \<open>
  The label normalizer in the words of its description: the words are kept up to the
  first one that does not start with a letter or digit; the first word kept is put in
  lower case, the others are capitalized, and all are joined with no separator.
\<close>

definition leading_alnum :: "string \<Rightarrow> bool" where
  "leading_alnum w = (case w of [] \<Rightarrow> False | c # cs \<Rightarrow> isalnum c)"

fun camel_case :: "string list \<Rightarrow> string" where
  "camel_case [] = []"
| "camel_case (w # ws) = lower w @ concat (map capitalize ws)"

text \<open>
  The parts of a description in the words of its description: the part under a heading
  holds the lines up to the next heading, and that heading opens the next part.
\<close>

definition is_heading :: "node \<Rightarrow> bool" where
  "is_heading tag = (tag_name tag = ''heading'')"

function parts_of :: "string \<Rightarrow> node list \<Rightarrow> (string \<times> val list) list" where
  "parts_of heading targets =
     (heading, map line_val (takeWhile (\<lambda>t. \<not> is_heading t) targets))
     # (case dropWhile (\<lambda>t. \<not> is_heading t) targets of
          [] \<Rightarrow> []
        | h # rest \<Rightarrow> parts_of (get_text h) rest)"
  by pat_completeness auto

termination
proof (relation "measure (\<lambda>p. length (snd p))")
  show "wf (measure (\<lambda>p. length (snd p)))" by simp
next
  fix heading :: string and targets :: "node list" and h rest
  assume "dropWhile (\<lambda>t. \<not> is_heading t) targets = h # rest"
  then have "length (h # rest) \<le> length targets"
    using length_dropWhile_le [of "\<lambda>t. \<not> is_heading t" targets] by simp
  then show "((get_text h, rest), (heading, targets)) \<in> measure (\<lambda>p. length (snd p))"
    by simp
qed

declare parts_of.simps [simp del]

text \<open>A description with a line, a heading, a line, a heading and a line.\<close>

definition description_example :: node where
  "description_example =
     Tag 10 ''section'' [(''itemprop'', AStr ''description''), (''itemscope'', AStr [])]
       [Tag 11 ''div'' [(''class'', AList [''description'']), (''lang'', AStr ''EN'')]
          [Tag 12 ''div'' [(''class'', AList [''description-line'']), (''num'', AStr ''1'')] [Text ''intro''],
           Tag 13 ''heading'' [] [Text ''BACKGROUND''],
           Tag 14 ''div'' [(''class'', AList [''description-line''])] [Text '' b1 ''],
           Tag 15 ''heading'' [] [Text ''FIELD''],
           Tag 16 ''div'' [(''class'', AList [''description-line'']), (''num'', AStr ''3'')] [Text ''f1'']]]"

text \<open>The identities of the tags among some nodes and below them, in document order.\<close>

definition tag_ids :: "node list \<Rightarrow> nat list" where
  "tag_ids nodes = map tag_id (map fst (walk [] nodes))"

text \<open>A property tag.\<close>

definition num_property :: node where
  "num_property = Tag 4 ''span'' [(''itemprop'', AStr ''num'')] [Text ''42'']"

text \<open>A page with one property, and a label tag that carries a property name.\<close>

definition one_property_page :: "node list" where
  "one_property_page =
     [Tag 1 ''html'' []
        [Tag 2 ''article'' [] [Tag 4 ''span'' [(''itemprop'', AStr ''num'')] [Text ''42'']]]]"

definition label_with_itemprop :: node where
  "label_with_itemprop = Tag 3 ''h2'' [(''itemprop'', AStr ''title'')] [Text ''Title'']"

text \<open>A \<open>meta\<close> property with an empty \<open>content\<close> attribute, and a property whose
  text sits in a nested tag.\<close>

definition empty_content_meta :: node where
  "empty_content_meta = Tag 7 ''meta'' [(''itemprop'', AStr ''x''), (''content'', AStr [])] []"

definition nested_text_property :: node where
  "nested_text_property =
     Tag 8 ''span'' [(''itemprop'', AStr ''x'')] [Tag 9 ''b'' [] [Text '' bold '']]"



text \<open>
  The siblings that a label group is made of: text runs, and property tags that are
  neither label tags nor sections. \<open>property_name\<close> is the property name of such a tag.
\<close>

definition is_group_sibling :: "node \<Rightarrow> bool" where
  "is_group_sibling t =
     (case t of
        Text s \<Rightarrow> True
      | Tag i nm attrs cs \<Rightarrow>
          nm \<notin> set START_TAGS \<and> nm \<noteq> ''section'' \<and>
          (case get_truthy attrs ''itemprop'' of Some (AStr p) \<Rightarrow> True | _ \<Rightarrow> False))"

definition property_names :: "node list \<Rightarrow> string set" where
  "property_names nodes =
     {p. \<exists>i nm attrs cs. Tag i nm attrs cs \<in> set nodes \<and> map_of attrs ''itemprop'' = Some (AStr p)}"

text \<open>The siblings after the group: none, or a label tag first.\<close>

definition group_ends :: "node list \<Rightarrow> bool" where
  "group_ends rest =
     (case rest of
        [] \<Rightarrow> True
      | Text s # r \<Rightarrow> False
      | Tag i nm attrs cs # r \<Rightarrow> nm \<in> set START_TAGS)"

text \<open>A label, two properties and the next label with its property; a label and a section.\<close>

definition label_group :: "node list" where
  "label_group =
     [Tag 41 ''dt'' [] [Text ''Info''],
      Tag 42 ''dd'' [(''itemprop'', AStr ''x'')] [Text ''1''],
      Text '' '',
      Tag 43 ''dd'' [(''itemprop'', AStr ''y''), (''repeat'', AStr [])] [Text ''2''],
      Tag 44 ''dt'' [] [Text ''More''],
      Tag 45 ''dd'' [(''itemprop'', AStr ''z'')] [Text ''3'']]"

definition label_then_section :: "node list" where
  "label_then_section =
     [Tag 46 ''h2'' [] [Text ''Info''],
      Tag 47 ''section'' [(''itemprop'', AStr ''abstract'')] [Text ''x'']]"

text \<open>The tags among some nodes and below them, in document order.\<close>

definition all_tags :: "node list \<Rightarrow> node list" where
  "all_tags nodes = map fst (walk [] nodes)"

text \<open>
  The conditions under which the walker and the dispatcher fail. A property name that
  is a list fails the assertion of line 74. A scoped section fails the dispatcher when
  it has no property name or one that is not a string, and when its parser misses the
  tag it looks for: the \<open>abstract\<close> tag, the tag of class \<open>description\<close>, the tag of
  class \<open>claims\<close>, or the ancestor of class \<open>claim\<close> of a \<open>claim-text\<close> fragment.
\<close>

definition bad_name :: "node \<Rightarrow> bool" where
  "bad_name t =
     (case t of
        Text s \<Rightarrow> False
      | Tag i nm attrs cs \<Rightarrow>
          nm \<notin> set START_TAGS \<and>
          (case get_truthy attrs ''itemprop'' of Some (AList xs) \<Rightarrow> True | _ \<Rightarrow> False))"




definition lists_at :: "string set \<Rightarrow> pnode \<Rightarrow> bool" where
  "lists_at R n =
     (\<forall>k \<in> R. case map_of n k of None \<Rightarrow> True | Some (VList vs) \<Rightarrow> True | Some other \<Rightarrow> False)"

text \<open>
  What a call of the walker on the tags of \<open>scope\<close> comes to: it returns, and the keys
  in \<open>R\<close> hold lists, or it fails the assertion of line 74 at a tag of \<open>scope\<close>.
\<close>

definition walker_outcome ::
  "string set \<Rightarrow> node list \<Rightarrow> error + (nat set \<times> pnode) \<Rightarrow> bool" where
  "walker_outcome R scope r =
     (case r of
        Inr res \<Rightarrow> lists_at R (snd res)
      | Inl e \<Rightarrow> e = AssertionError 74 \<and> (\<exists>x \<in> set (all_tags scope). bad_name x))"




text \<open>A page where a property name is first assigned and then repeated.\<close>

definition mixed_repeat_page :: "node list" where
  "mixed_repeat_page =
     [Tag 1 ''html'' []
        [Tag 2 ''article'' []
           [Tag 3 ''span'' [(''itemprop'', AStr ''a'')] [Text ''x''],
            Tag 4 ''span'' [(''itemprop'', AStr ''a''), (''repeat'', AStr [])] [Text ''y'']]]]"

text \<open>The result of a walker call with the identities \<open>X\<close> added to the visited set.\<close>

definition with_seen :: "nat set \<Rightarrow> error + (nat set \<times> 'a) \<Rightarrow> error + (nat set \<times> 'a)" where
  "with_seen X r = (case r of Inl e \<Rightarrow> Inl e | Inr res \<Rightarrow> Inr (fst res \<union> X, snd res))"

section \<open>The interpreter's recursion limit\<close>

text \<open>
  The functions above recurse as deep as the tree is. Python gives a call a frame and
  raises RecursionError when no frame is left. The functions below are the walker with
  the number of frames that are left as their first argument: a call with no frame left
  fails, a call made from a function has one frame less, and the next round of a loop has
  as many as the round before. \<open>tag.string\<close> is counted as well, since it calls
  itself through single nested tags; the attribute lookups and the logger, which need a
  fixed number of frames whatever the document is, are not counted. A failure of the
  limited functions is RecursionError or an error of the functions above.
\<close>

datatype failure = RecursionError | Raised error

definition raised :: "error + 'a \<Rightarrow> failure + 'a" where
  "raised r = (case r of Inl e \<Rightarrow> Inl (Raised e) | Inr x \<Rightarrow> Inr x)"

fun bs4_string_limited :: "nat \<Rightarrow> node \<Rightarrow> failure + string option" where
  "bs4_string_limited frames (Text s) = Inr (Some s)"
| "bs4_string_limited frames (Tag i nm attrs []) =
     (if frames = 0 then Inl RecursionError else Inr None)"
| "bs4_string_limited frames (Tag i nm attrs [c]) =
     (if frames = 0 then Inl RecursionError
      else (case c of Text s \<Rightarrow> Inr (Some s) | Tag j m a d \<Rightarrow> bs4_string_limited (frames - 1) c))"
| "bs4_string_limited frames (Tag i nm attrs (c # d # cs)) =
     (if frames = 0 then Inl RecursionError else Inr None)"

definition parse_label_limited :: "nat \<Rightarrow> node \<Rightarrow> failure + string" where
  "parse_label_limited frames tag =
     (if frames = 0 then Inl RecursionError
      else
        (case bs4_string_limited (frames - 1) tag of
           Inl e \<Rightarrow> Inl e
         | Inr None \<Rightarrow> Inr []
         | Inr (Some raw) \<Rightarrow>
             (case label_loop 0 (split (strip raw)) [] of
                Inl e \<Rightarrow> Inl (Raised e)
              | Inr parts \<Rightarrow> Inr (concat parts))))"

definition text_value_limited :: "nat \<Rightarrow> node \<Rightarrow> failure + val" where
  "text_value_limited frames tag =
     (case bs4_string_limited frames tag of
        Inl e \<Rightarrow> Inl e
      | Inr None \<Rightarrow> Inr VNone
      | Inr (Some text) \<Rightarrow> Inr (VStr (strip text)))"

function (sequential)
  parse_properties_limited ::
    "nat \<Rightarrow> nat set \<Rightarrow> node \<Rightarrow> node list \<Rightarrow> pnode \<Rightarrow> failure + (nat set \<times> pnode)"
  and property_value_limited :: "nat \<Rightarrow> nat set \<Rightarrow> node \<Rightarrow> failure + (nat set \<times> val)"
  and parse_children_properties_limited ::
    "nat \<Rightarrow> nat set \<Rightarrow> node list \<Rightarrow> pnode \<Rightarrow> failure + (nat set \<times> pnode)"
  and parse_siblings_properties_limited ::
    "nat \<Rightarrow> nat set \<Rightarrow> node list \<Rightarrow> pnode \<Rightarrow> failure + (nat set \<times> pnode)"
where
  "parse_properties_limited frames hack (Text s) sibs current_node =
     (if frames = 0 then Inl RecursionError else Inr (hack, current_node))"
| "parse_properties_limited frames hack (Tag i nm attrs cs) sibs current_node =
     (if frames = 0 then Inl RecursionError
      else if i \<in> hack then Inr (hack, current_node)
      else if nm \<in> set START_TAGS then
        (case parse_label_limited (frames - 1) (Tag i nm attrs cs) of
           Inl e \<Rightarrow> Inl e
         | Inr label \<Rightarrow>
             (case parse_siblings_properties_limited (frames - 1) (insert i hack) sibs [] of
                Inl e \<Rightarrow> Inl e
              | Inr (hack', child_node) \<Rightarrow>
                  Inr (hack', AList.update label (VNode child_node) current_node)))
      else
        (case get_truthy attrs ''itemprop'' of
           None \<Rightarrow> parse_children_properties_limited (frames - 1) (insert i hack) cs current_node
         | Some (AList xs) \<Rightarrow> Inl (Raised (AssertionError 74))
         | Some (AStr property_name) \<Rightarrow>
             if nm = ''section'' then Inr (insert i hack, current_node)
             else
               (case property_value_limited (frames - 1) (insert i hack) (Tag i nm attrs cs) of
                  Inl e \<Rightarrow> Inl e
                | Inr (hack', v) \<Rightarrow>
                    (case store_property attrs property_name v current_node of
                       Inl e \<Rightarrow> Inl (Raised e)
                     | Inr node' \<Rightarrow> Inr (hack', node')))))"
| "property_value_limited frames hack (Text s) =
     (if frames = 0 then Inl RecursionError else Inr (hack, VNone))"
| "property_value_limited frames hack (Tag i nm attrs cs) =
     (if frames = 0 then Inl RecursionError
      else if has_attr attrs ''itemscope'' then
        (case parse_children_properties_limited (frames - 1) hack cs [] of
           Inl e \<Rightarrow> Inl e
         | Inr (hack', child_node) \<Rightarrow> Inr (hack', VNode child_node))
      else
        (case get_truthy attrs ''content'' of
           Some content \<Rightarrow> Inr (hack, attr_val content)
         | None \<Rightarrow>
             (case get_truthy attrs ''href'' of
                Some href \<Rightarrow> Inr (hack, attr_val href)
              | None \<Rightarrow>
                  (case get_truthy attrs ''src'' of
                     Some src \<Rightarrow> Inr (hack, attr_val src)
                   | None \<Rightarrow>
                       (case text_value_limited (frames - 1) (Tag i nm attrs cs) of
                          Inl e \<Rightarrow> Inl e
                        | Inr v \<Rightarrow> Inr (hack, v))))))"
| "parse_children_properties_limited frames hack [] current_node =
     (if frames = 0 then Inl RecursionError else Inr (hack, current_node))"
| "parse_children_properties_limited frames hack (Text s # rest) current_node =
     parse_children_properties_limited frames hack rest current_node"
| "parse_children_properties_limited frames hack (Tag i nm attrs cs # rest) current_node =
     (if frames = 0 then Inl RecursionError
      else
        (case parse_properties_limited (frames - 1) hack (Tag i nm attrs cs) rest current_node of
           Inl e \<Rightarrow> Inl e
         | Inr (hack', node') \<Rightarrow> parse_children_properties_limited frames hack' rest node'))"
| "parse_siblings_properties_limited frames hack [] current_node =
     (if frames = 0 then Inl RecursionError else Inr (hack, current_node))"
| "parse_siblings_properties_limited frames hack (Text s # rest) current_node =
     parse_siblings_properties_limited frames hack rest current_node"
| "parse_siblings_properties_limited frames hack (Tag i nm attrs cs # rest) current_node =
     (if frames = 0 then Inl RecursionError
      else if nm \<in> set START_TAGS then Inr (hack, current_node)
      else
        (case parse_properties_limited (frames - 1) hack (Tag i nm attrs cs) rest current_node of
           Inl e \<Rightarrow> Inl e
         | Inr (hack', node') \<Rightarrow> parse_siblings_properties_limited frames hack' rest node'))"
  by pat_completeness auto

termination
  by (relation "measure (\<lambda>x. case x of
      Inl (Inl (f, h, t, sibs, n)) \<Rightarrow> 2 * (size t + size_list size sibs) + 1
    | Inl (Inr (f, h, t)) \<Rightarrow> 2 * size t
    | Inr (Inl (f, h, cs, n)) \<Rightarrow> 2 * size_list size cs
    | Inr (Inr (f, h, cs, n)) \<Rightarrow> 2 * size_list size cs)") simp_all

text \<open>\<open>parse_html\<close> with \<open>frames\<close> left for the call of the walker.\<close>

definition parse_html_limited :: "nat \<Rightarrow> nat set \<Rightarrow> node list \<Rightarrow> failure + (nat set \<times> pnode)" where
  "parse_html_limited frames hack soup =
     (case filter (\<lambda>p. named ''html'' (fst p)) (walk [] soup) of
        [] \<Rightarrow> Inl (Raised (AssertionError 31))
      | (root, rsibs, rancs) # ps \<Rightarrow>
          (case find_first (named ''article'') root rancs of
             None \<Rightarrow> Inl (Raised (AssertionError 34))
           | Some (article, sibs, ancs) \<Rightarrow>
               (case parse_properties_limited frames hack article sibs [] of
                  Inl e \<Rightarrow> Inl e
                | Inr (hack', data) \<Rightarrow>
                    (case parse_sections article ancs data of
                       Inl e \<Rightarrow> Inl (Raised e)
                     | Inr data' \<Rightarrow> Inr (hack', data')))))"



section \<open>Properties\<close>

subsection \<open>The label normalizer\<close>

lemma split_from_nonempty: "u \<in> set (split_from s w) \<Longrightarrow> u \<noteq> []"
  by (induction s arbitrary: w) (auto split: if_splits)

lemma label_loop_later:
  "\<forall>u \<in> set ws. u \<noteq> [] \<Longrightarrow>
   label_loop (Suc i) ws parts = Inr (parts @ map capitalize (takeWhile leading_alnum ws))"
proof (induction ws arbitrary: i parts)
  case Nil
  then show ?case by simp
next
  case (Cons w ws)
  then obtain c cs where w: "w = c # cs" by (cases w) auto
  from Cons.prems have rest: "\<forall>u \<in> set ws. u \<noteq> []" by simp
  show ?case
    using Cons.IH [OF rest] by (simp add: w leading_alnum_def)
qed

lemma label_loop_first:
  assumes "\<forall>u \<in> set ws. u \<noteq> []"
  shows "label_loop 0 ws [] =
    Inr (case takeWhile leading_alnum ws of [] \<Rightarrow> [] | w # r \<Rightarrow> lower w # map capitalize r)"
proof (cases ws)
  case Nil
  then show ?thesis by simp
next
  case (Cons w r)
  with assms obtain c cs where w: "w = c # cs" by (cases w) auto
  from assms Cons have rest: "\<forall>u \<in> set r. u \<noteq> []" by simp
  show ?thesis
    using label_loop_later [OF rest, of 0 "[lower w]"]
    by (simp add: Cons w leading_alnum_def)
qed

text \<open>The words that \<open>split\<close> yields are not empty, so \<open>part[0]\<close> never fails and
  \<open>parse_label\<close> always returns a label.\<close>

lemma parse_label_total: "\<exists>label. parse_label tag = Inr label"
proof (cases "bs4_string tag")
  case None
  then show ?thesis by (simp add: parse_label_def)
next
  case (Some raw)
  have "\<forall>u \<in> set (split (strip raw)). u \<noteq> []"
    using split_from_nonempty by (auto simp: split_def)
  from label_loop_first [OF this] show ?thesis
    by (simp add: parse_label_def Some)
qed

text \<open>
  Claim C4, as the code has it. A label tag with no single text run gives the empty
  label. Otherwise the stripped text is cut into words at white space; the words from
  the first one that starts with a character that is neither a letter nor a digit are
  dropped; the first word kept is put in lower case, each later one is capitalized, and
  they are joined with no separator. Only the first character of a word is looked at.
\<close>

theorem parse_label_camel_case:
  "parse_label tag =
     Inr (case bs4_string tag of
            None \<Rightarrow> []
          | Some raw \<Rightarrow> camel_case (takeWhile leading_alnum (split (strip raw))))"
proof (cases "bs4_string tag")
  case None
  then show ?thesis by (simp add: parse_label_def)
next
  case (Some raw)
  have ne: "\<forall>u \<in> set (split (strip raw)). u \<noteq> []"
    using split_from_nonempty by (auto simp: split_def)
  show ?thesis
    using label_loop_first [OF ne]
    by (simp add: parse_label_def Some split: list.splits)
qed

text \<open>
  Claim C4 as stated fails: punctuation at the end of a word stays in the label. The
  label text \<open>Description:\<close> is normalized to \<open>description:\<close>, colon included.
\<close>

theorem parse_label_keeps_trailing_punctuation:
  "parse_label (Tag 0 ''h2'' [] [Text ''Description:'']) = Inr ''description:''"
  by code_simp

subsection \<open>The description parser\<close>

lemma parts_of_Nil: "parts_of h [] = [(h, [])]"
  by (simp add: parts_of.simps)

lemma parts_of_heading:
  "is_heading t \<Longrightarrow> parts_of h (t # ts) = (h, []) # parts_of (get_text t) ts"
  by (simp add: parts_of.simps [of h "t # ts"])

lemma parts_of_line:
  "\<not> is_heading t \<Longrightarrow>
   parts_of h (t # ts) = (h, line_val t # snd (hd (parts_of h ts))) # tl (parts_of h ts)"
  by (simp add: parts_of.simps [of h "t # ts"] parts_of.simps [of h ts])

lemma parts_of_hd: "fst (hd (parts_of h ts)) = h"
  by (simp add: parts_of.simps [of h ts])

lemma parts_loop_parts_of:
  "parts_loop ts parts (h, ls) =
     parts @ (h, ls @ snd (hd (parts_of h ts))) # tl (parts_of h ts)"
proof (induction ts arbitrary: parts h ls)
  case Nil
  then show ?case by (simp add: parts_of_Nil)
next
  case (Cons t ts)
  show ?case
  proof (cases "is_heading t")
    case True
    then have "tag_name t = ''heading''" by (simp add: is_heading_def)
    then show ?thesis
      using Cons.IH [of "parts @ [(h, ls)]" "get_text t" "[]"] True
      by (simp add: parts_of_heading new_part_def parts_of.simps [of "get_text t" ts])
  next
    case False
    then have "tag_name t \<noteq> ''heading''" by (simp add: is_heading_def)
    then show ?thesis
      using Cons.IH [of parts h "ls @ [line_val t]"] False
      by (simp add: parts_of_line)
  qed
qed

lemma parts_loop_start: "parts_loop ts [] (new_part []) = parts_of [] ts"
  by (simp add: new_part_def parts_loop_parts_of parts_of.simps [of "[]" ts])

lemma parts_of_headings:
  "map fst (parts_of h ts) = h # map get_text (filter is_heading ts)"
proof (induction ts arbitrary: h)
  case Nil
  then show ?case by (simp add: parts_of_Nil)
next
  case (Cons t ts)
  show ?case
  proof (cases "is_heading t")
    case True
    then show ?thesis by (simp add: parts_of_heading Cons.IH)
  next
    case False
    have "map fst (parts_of h (t # ts)) = map fst (parts_of h ts)"
      using False by (simp add: parts_of_line parts_of.simps [of h ts])
    then show ?thesis using False by (simp add: Cons.IH)
  qed
qed

lemma parts_of_lines:
  "concat (map snd (parts_of h ts)) = map line_val (filter (\<lambda>t. \<not> is_heading t) ts)"
proof (induction ts arbitrary: h)
  case Nil
  then show ?case by (simp add: parts_of_Nil)
next
  case (Cons t ts)
  show ?case
  proof (cases "is_heading t")
    case True
    then show ?thesis by (simp add: parts_of_heading Cons.IH)
  next
    case False
    have "concat (map snd (parts_of h (t # ts))) = line_val t # concat (map snd (parts_of h ts))"
      using False by (simp add: parts_of_line parts_of.simps [of h ts])
    then show ?thesis using False by (simp add: Cons.IH)
  qed
qed

lemma parts_of_no_heading:
  assumes "\<forall>t \<in> set ts. \<not> is_heading t"
  shows "parts_of h ts = [(h, map line_val ts)]"
proof -
  have tw: "takeWhile (\<lambda>t. \<not> is_heading t) ts = ts"
    using assms by simp
  have dw: "dropWhile (\<lambda>t. \<not> is_heading t) ts = []"
    using assms by simp
  show ?thesis
    unfolding parts_of.simps [of h ts] tw dw by simp
qed

lemma parts_of_append_heading:
  assumes "\<forall>t \<in> set pre. \<not> is_heading t" "is_heading x"
  shows "parts_of h (pre @ x # rest) = (h, map line_val pre) # parts_of (get_text x) rest"
proof -
  have tw: "takeWhile (\<lambda>t. \<not> is_heading t) (pre @ x # rest) = pre"
    using assms by (simp add: takeWhile_append2)
  have dw: "dropWhile (\<lambda>t. \<not> is_heading t) (pre @ x # rest) = x # rest"
    using assms by (simp add: dropWhile_append2)
  show ?thesis
    unfolding parts_of.simps [of h "pre @ x # rest"] tw dw by simp
qed

lemma parts_of_two_headings:
  assumes "\<forall>t \<in> set pre. \<not> is_heading t" "is_heading h1"
    "\<forall>t \<in> set mid. \<not> is_heading t" "is_heading h2" "\<forall>t \<in> set post. \<not> is_heading t" 
  shows "parts_of [] (pre @ h1 # mid @ h2 # post) =
     [([], map line_val pre), (get_text h1, map line_val mid), (get_text h2, map line_val post)]"
  using assms by (simp add: parts_of_append_heading parts_of_no_heading)


subsection \<open>Dictionaries\<close>

lemma map_of_foldl_update:
  "map_of (foldl (\<lambda>d kv. AList.update (fst kv) (snd kv) d) d0 kvs) = map_of (rev kvs @ d0)"
proof (induction kvs arbitrary: d0)
  case Nil
  then show ?case by simp
next
  case (Cons kv kvs)
  show ?case
    by (simp add: Cons.IH update_conv' map_add_def fun_eq_iff split: option.splits)
qed

lemma map_of_dict: "map_of (dict kvs) = map_of (rev kvs)"
  by (simp add: dict_def map_of_foldl_update)

text \<open>
  Claim C9. When the section holds a tag of class \<open>description\<close>, the description
  parser returns that tag's attributes but \<open>class\<close> and, under \<open>parts\<close>, the parts of
  the headings and lines found below it in document order: the first part has the empty
  heading and the lines before the first heading, each heading opens a part titled with
  its text that holds the lines up to the next heading, and the open part is appended at
  the end. So the headings of the parts are the empty string and then the texts of the
  headings, the lines of the parts are all the lines in order, no heading gives one part
  with all the lines, and two headings give three parts.
\<close>

theorem parse_description_parts:
  assumes found: "find_first (class_is ''description'') section ancs = Some (description, sibs, ancs')"
    and targets: "targets = map fst (find_all is_target description ancs')"
  shows "\<exists>parts.
      parse_description section ancs =
        Inr (attrs_except_class description @ [(''parts'', VList (map part_val parts))])
    \<and> map_of (dict (attrs_except_class description @ [(''parts'', VList (map part_val parts))]))
        ''parts'' = Some (VList (map part_val parts))
    \<and> parts = parts_of [] targets
    \<and> map fst parts = [] # map get_text (filter is_heading targets)
    \<and> concat (map snd parts) = map line_val (filter (\<lambda>t. \<not> is_heading t) targets)
    \<and> ((\<forall>t \<in> set targets. \<not> is_heading t) \<longrightarrow> parts = [([], map line_val targets)])
    \<and> (\<forall>pre h1 mid h2 post.
          targets = pre @ h1 # mid @ h2 # post \<and> is_heading h1 \<and> is_heading h2
          \<and> (\<forall>t \<in> set pre \<union> set mid \<union> set post. \<not> is_heading t)
          \<longrightarrow> parts = [([], map line_val pre), (get_text h1, map line_val mid),
                        (get_text h2, map line_val post)])"
proof (intro exI conjI)
  show "parse_description section ancs =
      Inr (attrs_except_class description @ [(''parts'', VList (map part_val (parts_of [] targets)))])"
    by (simp add: parse_description_def found targets parts_loop_start)
  show "map_of (dict (attrs_except_class description
        @ [(''parts'', VList (map part_val (parts_of [] targets)))])) ''parts''
      = Some (VList (map part_val (parts_of [] targets)))"
    by (simp add: map_of_dict)
  show "parts_of [] targets = parts_of [] targets" ..
  show "map fst (parts_of [] targets) = [] # map get_text (filter is_heading targets)"
    by (rule parts_of_headings)
  show "concat (map snd (parts_of [] targets)) = map line_val (filter (\<lambda>t. \<not> is_heading t) targets)"
    by (rule parts_of_lines)
  show "(\<forall>t \<in> set targets. \<not> is_heading t) \<longrightarrow> parts_of [] targets = [([], map line_val targets)]"
    by (simp add: parts_of_no_heading)
  show "\<forall>pre h1 mid h2 post.
          targets = pre @ h1 # mid @ h2 # post \<and> is_heading h1 \<and> is_heading h2
          \<and> (\<forall>t \<in> set pre \<union> set mid \<union> set post. \<not> is_heading t)
          \<longrightarrow> parts_of [] targets = [([], map line_val pre), (get_text h1, map line_val mid),
                        (get_text h2, map line_val post)]"
    by (auto simp: parts_of_two_headings)
qed

theorem parse_description_parts_witness:
  "parse_description description_example [] =
     Inr [(''lang'', VStr ''EN''),
          (''parts'', VList
            [VNode [(''heading'', VStr []), (''lines'', VList [VNode [(''num'', VStr ''1''), (''text'', VStr ''intro'')]])],
             VNode [(''heading'', VStr ''BACKGROUND''), (''lines'', VList [VNode [(''num'', VNone), (''text'', VStr ''b1'')]])],
             VNode [(''heading'', VStr ''FIELD''), (''lines'', VList [VNode [(''num'', VStr ''3''), (''text'', VStr ''f1'')]])]])]"
proof -
  define d where "d = hd (contents description_example)"
  have found: "find_first (class_is ''description'') description_example [] =
      Some (d, [], [description_example])"
    unfolding d_def by code_simp
  have parts: "map part_val (parts_of [] (map fst (find_all is_target d [description_example]))) =
      [VNode [(''heading'', VStr []), (''lines'', VList [VNode [(''num'', VStr ''1''), (''text'', VStr ''intro'')]])],
       VNode [(''heading'', VStr ''BACKGROUND''), (''lines'', VList [VNode [(''num'', VNone), (''text'', VStr ''b1'')]])],
       VNode [(''heading'', VStr ''FIELD''), (''lines'', VList [VNode [(''num'', VStr ''3''), (''text'', VStr ''f1'')]])]]"
    unfolding d_def by code_simp
  have attrs: "attrs_except_class d = [(''lang'', VStr ''EN'')]"
    unfolding d_def by code_simp
  from parse_description_parts [OF found refl] show ?thesis
    by (auto simp: parts attrs)
qed

subsection \<open>The visited set\<close>

lemma walk_tags: "map fst (walk ancs nodes) = map fst (walk ancs' nodes)"
proof (induction ancs nodes arbitrary: ancs' rule: walk.induct)
  case (1 ancs)
  then show ?case by simp
next
  case (2 ancs s rest)
  then show ?case by simp
next
  case (3 ancs i nm attrs cs rest)
  show ?case
    using "3.IH"(1) [of "Tag i nm attrs cs # ancs'"] "3.IH"(2) [of ancs'] by simp
qed

lemma tag_ids_simps [simp]:
  "tag_ids [] = []"
  "tag_ids (Text s # rest) = tag_ids rest"
  "tag_ids (Tag i nm attrs cs # rest) = i # tag_ids cs @ tag_ids rest"
  using walk_tags [of "[Tag i nm attrs cs]" cs "[]"] by (simp_all add: tag_ids_def)

lemma hack_bounds:
  "parse_properties hack t sibs n = Inr (hack', n') \<Longrightarrow>
     hack \<subseteq> hack' \<and> hack' \<subseteq> hack \<union> set (tag_ids (t # sibs))"
  "property_value hack t = Inr (hack', v) \<Longrightarrow>
     hack \<subseteq> hack' \<and> hack' \<subseteq> hack \<union> set (tag_ids [t])"
  "parse_children_properties hack cs n = Inr (hack', n') \<Longrightarrow>
     hack \<subseteq> hack' \<and> hack' \<subseteq> hack \<union> set (tag_ids cs)"
  "parse_siblings_properties hack cs n = Inr (hack', n') \<Longrightarrow>
     hack \<subseteq> hack' \<and> hack' \<subseteq> hack \<union> set (tag_ids cs)"
proof (induction hack t sibs n and hack t and hack cs n and hack cs n
    arbitrary: hack' n' and hack' v and hack' n' and hack' n'
    rule: parse_properties_property_value_parse_children_properties_parse_siblings_properties.induct)
  case (1 hack s sibs current_node)
  then show ?case by simp
next
  case (2 hack i nm attrs cs sibs current_node)
  show ?case
  proof (cases "i \<in> hack")
    case True
    with "2.prems" show ?thesis by auto
  next
    case seen: False
    show ?thesis
    proof (cases "nm \<in> set START_TAGS")
      case True
      from "2.prems" seen True obtain label child where
        l: "parse_label (Tag i nm attrs cs) = Inr label" and
        s: "parse_siblings_properties (insert i hack) sibs [] = Inr (hack', child)"
        by (auto split: sum.splits)
      from "2.IH"(1) [OF seen True l s] show ?thesis by auto
    next
      case label: False
      show ?thesis
      proof (cases "get_truthy attrs ''itemprop''")
        case None
        with "2.prems" seen label
        have "parse_children_properties (insert i hack) cs current_node = Inr (hack', n')"
          by simp
        from "2.IH"(2) [OF seen label None this] show ?thesis by auto
      next
        case (Some pv)
        show ?thesis
        proof (cases pv)
          case (AList xs)
          with "2.prems" seen label Some show ?thesis by simp
        next
          case (AStr property_name)
          show ?thesis
          proof (cases "nm = ''section''")
            case True
            with "2.prems" seen label Some AStr show ?thesis by auto
          next
            case False
            from "2.prems" seen label Some AStr False obtain v where
              "property_value (insert i hack) (Tag i nm attrs cs) = Inr (hack', v)"
              by (auto split: sum.splits)
            from "2.IH"(3) [OF seen label Some AStr False this] show ?thesis by auto
          qed
        qed
      qed
    qed
  qed
next
  case (3 hack s)
  then show ?case by simp
next
  case (4 hack i nm attrs cs)
  show ?case
  proof (cases "has_attr attrs ''itemscope''")
    case True
    with "4.prems" obtain child where
      "parse_children_properties hack cs [] = Inr (hack', child)"
      by (auto split: sum.splits)
    from "4.IH" [OF True this] show ?thesis by auto
  next
    case False
    with "4.prems" have "hack' = hack"
      by (auto split: option.splits)
    then show ?thesis by auto
  qed
next
  case (5 hack current_node)
  then show ?case by simp
next
  case (6 hack s rest current_node)
  then show ?case by simp
next
  case (7 hack i nm attrs cs rest current_node)
  from "7.prems" obtain h1 n1 where
    p: "parse_properties hack (Tag i nm attrs cs) rest current_node = Inr (h1, n1)" and
    r: "parse_children_properties h1 rest n1 = Inr (hack', n')"
    by (auto split: sum.splits)
  from "7.IH"(1) [OF p] "7.IH"(2) [OF p refl r] show ?case by auto
next
  case (8 hack current_node)
  then show ?case by simp
next
  case (9 hack s rest current_node)
  then show ?case by simp
next
  case (10 hack i nm attrs cs rest current_node)
  show ?case
  proof (cases "nm \<in> set START_TAGS")
    case True
    with "10.prems" show ?thesis by auto
  next
    case False
    with "10.prems" obtain h1 n1 where
      p: "parse_properties hack (Tag i nm attrs cs) rest current_node = Inr (h1, n1)" and
      r: "parse_siblings_properties h1 rest n1 = Inr (hack', n')"
      by (auto split: sum.splits)
    from "10.IH"(1) [OF False p] "10.IH"(2) [OF False p refl r] show ?thesis by auto
  qed
qed

lemma parse_properties_marks:
  assumes "parse_properties hack (Tag i nm attrs cs) sibs n = Inr (hack', n')"
  shows "i \<in> hack'"
proof (cases "i \<in> hack")
  case True
  with assms show ?thesis by simp
next
  case seen: False
  show ?thesis
  proof (cases "nm \<in> set START_TAGS")
    case True
    from assms seen True obtain child where
      "parse_siblings_properties (insert i hack) sibs [] = Inr (hack', child)"
      by (auto split: sum.splits)
    from hack_bounds(4) [OF this] show ?thesis by simp
  next
    case label: False
    show ?thesis
    proof (cases "get_truthy attrs ''itemprop''")
      case None
      with assms seen label
      have "parse_children_properties (insert i hack) cs n = Inr (hack', n')"
        by simp
      from hack_bounds(3) [OF this] show ?thesis by simp
    next
      case (Some pv)
      show ?thesis
      proof (cases pv)
        case (AList xs)
        with assms seen label Some show ?thesis by simp
      next
        case (AStr property_name)
        show ?thesis
        proof (cases "nm = ''section''")
          case True
          with assms seen label Some AStr show ?thesis by auto
        next
          case False
          from assms seen label Some AStr False obtain v where
            "property_value (insert i hack) (Tag i nm attrs cs) = Inr (hack', v)"
            by (auto split: sum.splits)
          from hack_bounds(2) [OF this] show ?thesis by simp
        qed
      qed
    qed
  qed
qed

text \<open>
  Claim C2. Once \<open>parse_properties\<close> has returned for a tag, the tag's identity is in
  the visited set: feeding the same tag to the walker again, with the visited set the
  first call left, against any dictionary and in any sibling context, returns at once
  and leaves the dictionary and the visited set as they are.
\<close>

theorem parse_properties_second_visit:
  assumes "parse_properties hack tag sibs n = Inr (hack', n')"
  shows "parse_properties hack' tag sibs' other = Inr (hack', other)"
proof (cases tag)
  case (Tag i nm attrs cs)
  from assms [unfolded Tag] have "i \<in> hack'" by (rule parse_properties_marks)
  with Tag show ?thesis by simp
next
  case (Text s)
  then show ?thesis by simp
qed

theorem parse_properties_second_visit_witness:
  "parse_properties {} num_property [] [] = Inr ({4}, [(''num'', VStr ''42'')])
   \<and> parse_properties {4} num_property [] [(''num'', VStr ''42'')]
       = Inr ({4}, [(''num'', VStr ''42'')])"
proof -
  have first: "parse_properties {} num_property [] [] = Inr ({4}, [(''num'', VStr ''42'')])"
    by (simp add: num_property_def START_TAGS_def get_truthy_def has_attr_def
        store_property_def text_value_def strip_def is_space_def)
  from parse_properties_second_visit [OF first] first show ?thesis by simp
qed

subsection \<open>The visited set across calls\<close>

lemmas eval_defs =
  START_TAGS_def get_truthy_def has_attr_def store_property_def text_value_def strip_def
  is_space_def named_def find_first_def find_all_def parse_sections_def is_section_def

text \<open>
  Claim C1 does not hold of the code: \<open>hack\<close> is a module variable, filled by every
  call and never emptied. A first call on the page returns its property. A later call
  on a tree whose article has an identity that is in \<open>hack\<close> by then (Python gives the
  address of a freed tag to a new one) returns the empty dictionary for the same page.
\<close>

theorem parse_html_hack_survives_call:
  "parse_html {} one_property_page = Inr ({2, 4}, [(''num'', VStr ''42'')])
   \<and> parse_html {2, 4} one_property_page = Inr ({2, 4}, [])"
  by (simp add: one_property_page_def parse_html_def eval_defs insert_commute)

subsection \<open>Label tags\<close>

lemma parse_label_attrs: "parse_label (Tag i nm attrs cs) = parse_label (Tag i nm attrs' cs)"
proof -
  have "bs4_string (Tag i nm attrs cs) = bs4_string (Tag i nm attrs' cs)"
  proof (cases cs)
    case Nil
    then show ?thesis by simp
  next
    case (Cons c r)
    then show ?thesis by (cases r) simp_all
  qed
  then show ?thesis by (simp add: parse_label_def)
qed

text \<open>
  Claim C10, as the code has it. A tag named \<open>dt\<close> or \<open>h2\<close> takes the label-start
  transition whatever its attributes are: the walker returns for it what it returns for
  the same tag with any other attributes, and the keys of the dictionary afterwards are
  the keys before and at most the normalized label. So the tag's property name is a key
  afterwards only when it was one before, or when it is the normalized label itself.
\<close>

theorem label_tag_ignores_itemprop:
  assumes start: "nm \<in> set START_TAGS"
    and res: "parse_properties hack (Tag i nm attrs cs) sibs current_node = Inr (hack', node')"
    and label: "parse_label (Tag i nm attrs cs) = Inr label"
  shows "parse_properties hack (Tag i nm attrs' cs) sibs current_node = Inr (hack', node')
    \<and> fst ` set node' \<subseteq> insert label (fst ` set current_node)
    \<and> (\<forall>p. map_of attrs ''itemprop'' = Some (AStr p) \<and> p \<noteq> label
            \<and> p \<notin> fst ` set current_node \<longrightarrow> p \<notin> fst ` set node')"
proof -
  have same: "parse_properties hack (Tag i nm attrs' cs) sibs current_node
      = parse_properties hack (Tag i nm attrs cs) sibs current_node"
    using start parse_label_attrs [of i nm attrs' cs attrs] by simp
  have keys: "fst ` set node' \<subseteq> insert label (fst ` set current_node)"
  proof (cases "i \<in> hack")
    case True
    with res show ?thesis by auto
  next
    case False
    with res start label obtain child where
      "node' = AList.update label (VNode child) current_node"
      by (auto split: sum.splits)
    then show ?thesis by (auto simp: dom_update)
  qed
  from same res keys show ?thesis by auto
qed

theorem label_tag_ignores_itemprop_witness:
  "parse_properties {} (Tag 3 ''dt'' [(''itemprop'', AStr ''num'')] [Text ''Title'']) [] []
     = Inr ({3}, [(''title'', VNode [])])
   \<and> parse_properties {} (Tag 3 ''dt'' [] [Text ''Title'']) [] [] = Inr ({3}, [(''title'', VNode [])])
   \<and> ''num'' \<notin> fst ` set [(''title'', VNode [])]"
proof -
  have start: "''dt'' \<in> set START_TAGS" by (simp add: START_TAGS_def)
  have label: "parse_label (Tag 3 ''dt'' [(''itemprop'', AStr ''num'')] [Text ''Title'']) = Inr ''title''"
    by code_simp
  have res: "parse_properties {} (Tag 3 ''dt'' [(''itemprop'', AStr ''num'')] [Text ''Title'']) [] []
      = Inr ({3}, [(''title'', VNode [])])"
    by (simp add: eval_defs label)
  from label_tag_ignores_itemprop [OF start res label, of "[]"] res show ?thesis by simp
qed

text \<open>
  Claim C10 as stated fails when the label text normalizes to the tag's property name:
  for \<open><h2 itemprop="title">Title</h2>\<close> the walker installs the key \<open>title\<close>, which
  is the tag's property name.
\<close>

theorem label_key_equal_to_itemprop:
  "parse_properties {} label_with_itemprop [] [] = Inr ({3}, [(''title'', VNode [])])
   \<and> map_of (tag_attrs label_with_itemprop) ''itemprop'' = Some (AStr ''title'')"
proof -
  have "parse_label (Tag 3 ''h2'' [(''itemprop'', AStr ''title'')] [Text ''Title'']) = Inr ''title''"
    by code_simp
  then show ?thesis
    by (simp add: label_with_itemprop_def eval_defs)
qed

subsection \<open>The property value extractor\<close>

text \<open>
  Claim C6, as the code has it. The first case that applies gives the value: a tag with
  an \<open>itemscope\<close> attribute gives the dictionary that the walker fills from its children,
  starting from the empty one; else a \<open>content\<close> attribute that is not empty gives its
  value, else an \<open>href\<close> that is not empty, else a \<open>src\<close> that is not empty; else the
  value is the stripped \<open>tag.string\<close>, the single text run of the tag (also when it
  sits in a chain of single nested tags), or \<open>None\<close> when there is no such run. Without
  \<open>itemscope\<close> the extractor never fails and leaves the visited set alone.
\<close>

theorem property_value_priority:
  "(has_attr attrs ''itemscope'' \<longrightarrow>
      property_value hack (Tag i nm attrs cs) =
        (case parse_children_properties hack cs [] of
           Inl e \<Rightarrow> Inl e
         | Inr (hack', child_node) \<Rightarrow> Inr (hack', VNode child_node)))
   \<and> (\<not> has_attr attrs ''itemscope'' \<longrightarrow>
      (\<forall>c. map_of attrs ''content'' = Some c \<and> truthy c \<longrightarrow>
          property_value hack (Tag i nm attrs cs) = Inr (hack, attr_val c))
    \<and> (get_truthy attrs ''content'' = None \<longrightarrow>
        (\<forall>h. map_of attrs ''href'' = Some h \<and> truthy h \<longrightarrow>
            property_value hack (Tag i nm attrs cs) = Inr (hack, attr_val h))
      \<and> (get_truthy attrs ''href'' = None \<longrightarrow>
          (\<forall>s. map_of attrs ''src'' = Some s \<and> truthy s \<longrightarrow>
              property_value hack (Tag i nm attrs cs) = Inr (hack, attr_val s))
        \<and> (get_truthy attrs ''src'' = None \<longrightarrow>
            (\<forall>text. bs4_string (Tag i nm attrs cs) = Some text \<longrightarrow>
                property_value hack (Tag i nm attrs cs) = Inr (hack, VStr (strip text)))
          \<and> (bs4_string (Tag i nm attrs cs) = None \<longrightarrow>
                property_value hack (Tag i nm attrs cs) = Inr (hack, VNone))))))"
  by (simp add: get_truthy_def text_value_def)

theorem property_value_priority_witness:
  "property_value {} (Tag 1 ''a'' [(''href'', AStr ''/x''), (''content'', AStr ''c'')] [Text ''t''])
     = Inr ({}, VStr ''c'')
   \<and> property_value {} (Tag 1 ''a'' [(''href'', AStr ''/x''), (''src'', AStr ''s'')] [Text ''t''])
     = Inr ({}, VStr ''/x'')
   \<and> property_value {} (Tag 1 ''img'' [(''src'', AStr ''s'')] [Text ''t'']) = Inr ({}, VStr ''s'')
   \<and> property_value {} (Tag 1 ''span'' [] [Text '' t '']) = Inr ({}, VStr ''t'')
   \<and> property_value {} (Tag 1 ''span'' [] [Text ''a'', Text ''b'']) = Inr ({}, VNone)
   \<and> property_value {} (Tag 1 ''span'' [(''itemscope'', AStr [])] [Text ''a'']) = Inr ({}, VNode [])"
proof -
  have s: "strip '' t '' = ''t''" by code_simp
  show ?thesis
    using property_value_priority [of "[(''href'', AStr ''/x''), (''content'', AStr ''c'')]" "{}" 1 "''a''" "[Text ''t'']"]
      property_value_priority [of "[(''href'', AStr ''/x''), (''src'', AStr ''s'')]" "{}" 1 "''a''" "[Text ''t'']"]
      property_value_priority [of "[(''src'', AStr ''s'')]" "{}" 1 "''img''" "[Text ''t'']"]
      property_value_priority [of "[]" "{}" 1 "''span''" "[Text '' t '']"]
      property_value_priority [of "[]" "{}" 1 "''span''" "[Text ''a'', Text ''b'']"]
      property_value_priority [of "[(''itemscope'', AStr [])]" "{}" 1 "''span''" "[Text ''a'']"]
    by (simp add: has_attr_def get_truthy_def s)
qed

text \<open>
  Claim C6 as stated fails for a \<open>content\<close> attribute that is present and empty: the
  value is not that attribute's value, the empty string, but what the later cases give,
  here \<open>None\<close>.
\<close>

theorem property_value_empty_content:
  "has_attr (tag_attrs empty_content_meta) ''content''
   \<and> map_of (tag_attrs empty_content_meta) ''content'' = Some (AStr [])
   \<and> property_value {} empty_content_meta = Inr ({}, VNone)"
  by (simp add: empty_content_meta_def has_attr_def get_truthy_def text_value_def)

text \<open>The text of a property may come from a nested tag: \<open>tag.string\<close> follows single children.\<close>

lemma property_value_nested_text:
  "property_value {} nested_text_property = Inr ({}, VStr ''bold'')"
proof -
  have "strip '' bold '' = ''bold''" by code_simp
  then show ?thesis
    by (simp add: nested_text_property_def has_attr_def get_truthy_def text_value_def)
qed

subsection \<open>The section dispatcher\<close>







subsection \<open>The claims parser\<close>











subsection \<open>Label groups\<close>

lemma store_property_keys:
  assumes "store_property attrs p v n = Inr n'"
  shows "fst ` set n' = insert p (fst ` set n)"
proof -
  from assms obtain w where "n' = AList.update p w n"
    by (auto simp: store_property_def split: if_splits option.splits val.splits)
  then show ?thesis by (simp add: dom_update)
qed

lemma get_truthy_Some: "get_truthy attrs k = Some v \<Longrightarrow> map_of attrs k = Some v"
  by (auto simp: get_truthy_def split: option.splits if_splits)

lemma property_names_simps:
  "property_names [] = {}"
  "property_names (Text s # ps) = property_names ps"
  "map_of attrs ''itemprop'' = Some (AStr p) \<Longrightarrow>
     property_names (Tag i nm attrs cs # ps) = insert p (property_names ps)"
  by (auto simp: property_names_def)

lemma parse_siblings_group:
  assumes "parse_siblings_properties hack (props @ rest) n = Inr (hack', n')"
    and "\<forall>s \<in> set props. is_group_sibling s"
    and "group_ends rest"
    and "distinct (tag_ids props)"
    and "set (tag_ids props) \<inter> hack = {}"
  shows "fst ` set n' = fst ` set n \<union> property_names props"
  using assms
proof (induction props arbitrary: hack n)
  case Nil
  show ?case
  proof (cases rest)
    case Nil
    with Nil.prems show ?thesis by (simp add: property_names_simps)
  next
    case (Cons x r)
    with Nil.prems show ?thesis
      by (cases x) (auto simp: group_ends_def property_names_simps)
  qed
next
  case (Cons s props)
  show ?case
  proof (cases s)
    case (Text x)
    with Cons.prems have "parse_siblings_properties hack (props @ rest) n = Inr (hack', n')"
      "distinct (tag_ids props)" "set (tag_ids props) \<inter> hack = {}"
      by simp_all
    from Cons.IH [OF this(1) _ Cons.prems(3) this(2,3)] Cons.prems(2) Text
    show ?thesis by (simp add: property_names_simps)
  next
    case (Tag j m a c)
    from Cons.prems(2) Tag obtain p where
      m: "m \<notin> set START_TAGS" "m \<noteq> ''section''" and
      p: "get_truthy a ''itemprop'' = Some (AStr p)"
      by (auto simp: is_group_sibling_def split: option.splits attr_value.splits)
    from Cons.prems(4,5) Tag have j: "j \<notin> hack" by auto
    from Cons.prems(1) Tag m obtain h1 n1 where
      pp: "parse_properties hack (Tag j m a c) (props @ rest) n = Inr (h1, n1)" and
      ps: "parse_siblings_properties h1 (props @ rest) n1 = Inr (hack', n')"
      by (auto split: sum.splits)
    from pp j m p obtain v where
      pv: "property_value (insert j hack) (Tag j m a c) = Inr (h1, v)" and
      st: "store_property a p v n = Inr n1"
      by (auto split: sum.splits)
    from hack_bounds(2) [OF pv] have "h1 \<subseteq> insert j hack \<union> set (tag_ids [Tag j m a c])" by simp
    with Cons.prems(4,5) Tag have fresh: "set (tag_ids props) \<inter> h1 = {}"
      by auto
    from Cons.prems(4) Tag have d: "distinct (tag_ids props)" by simp
    from Cons.prems(2) have g: "\<forall>s \<in> set props. is_group_sibling s" by simp
    from Cons.IH [OF ps g Cons.prems(3) d fresh] store_property_keys [OF st]
      get_truthy_Some [OF p] Tag
    show ?thesis by (simp add: property_names_simps)
  qed
qed

text \<open>
  Claim C7, as the code has it. Let a label tag that the walker has not seen be followed
  by siblings that are text runs or property tags other than sections and labels, up to
  the next label tag or the end of the siblings, the tags having identities that are
  distinct and not in the visited set. When the walker returns, the dictionary installed
  under the normalized label has exactly the property names of those sibling tags as
  its keys.
\<close>

theorem label_group_keys:
  assumes start: "nm \<in> set START_TAGS"
    and props: "\<forall>s \<in> set props. is_group_sibling s"
    and ends: "group_ends rest"
    and ids: "distinct (i # tag_ids props)"
    and fresh: "set (i # tag_ids props) \<inter> hack = {}"
    and label: "parse_label (Tag i nm attrs cs) = Inr label"
    and res: "parse_properties hack (Tag i nm attrs cs) (props @ rest) current_node = Inr (hack', node')"
  shows "\<exists>child. map_of node' label = Some (VNode child) \<and> fst ` set child = property_names props"
proof -
  from fresh have i: "i \<notin> hack" by simp
  from res i start label obtain child where
    sib: "parse_siblings_properties (insert i hack) (props @ rest) [] = Inr (hack', child)" and
    node': "node' = AList.update label (VNode child) current_node"
    by (auto split: sum.splits)
  from ids fresh have "distinct (tag_ids props)" "set (tag_ids props) \<inter> insert i hack = {}"
    by auto
  from parse_siblings_group [OF sib props ends this]
  have "fst ` set child = property_names props" by simp
  with node' show ?thesis by (simp add: update_conv')
qed

theorem label_group_keys_witness:
  "parse_properties {} (hd label_group) (tl label_group) []
     = Inr ({41, 42, 43}, [(''info'', VNode [(''x'', VStr ''1''), (''y'', VList [VStr ''2''])])])
   \<and> (\<exists>child. map_of [(''info'', VNode [(''x'', VStr ''1''), (''y'', VList [VStr ''2''])])] ''info''
          = Some (VNode child) \<and> fst ` set child = {''x'', ''y''})"
proof -
  define props where "props = take 3 (tl label_group)"
  define rest where "rest = drop 3 (tl label_group)"
  have sibs: "tl label_group = props @ rest"
    by (simp add: props_def rest_def)
  have props: "props = [Tag 42 ''dd'' [(''itemprop'', AStr ''x'')] [Text ''1''], Text '' '',
      Tag 43 ''dd'' [(''itemprop'', AStr ''y''), (''repeat'', AStr [])] [Text ''2'']]"
    by (simp add: props_def label_group_def)
  have rest: "rest = [Tag 44 ''dt'' [] [Text ''More''], Tag 45 ''dd'' [(''itemprop'', AStr ''z'')] [Text ''3'']]"
    by (simp add: rest_def label_group_def)
  have start: "''dt'' \<in> set START_TAGS" by (simp add: START_TAGS_def)
  have group: "\<forall>s \<in> set props. is_group_sibling s"
    by (simp add: props is_group_sibling_def START_TAGS_def get_truthy_def)
  have ends: "group_ends rest"
    by (simp add: rest group_ends_def START_TAGS_def)
  have ids: "distinct (41 # tag_ids props)" "set (41 # tag_ids props) \<inter> {} = {}"
    by (simp_all add: props)
  have label: "parse_label (Tag 41 ''dt'' [] [Text ''Info'']) = Inr ''info''"
    by code_simp
  have res: "parse_properties {} (Tag 41 ''dt'' [] [Text ''Info'']) (props @ rest) []
     = Inr ({41, 42, 43}, [(''info'', VNode [(''x'', VStr ''1''), (''y'', VList [VStr ''2''])])])"
    by (simp add: props rest eval_defs label insert_commute)
  have names: "property_names props = {''x'', ''y''}"
    by (simp add: props property_names_simps insert_commute)
  from label_group_keys [OF start group ends ids label res] names res sibs
  show ?thesis by (simp add: label_group_def)
qed

text \<open>
  Claim C7 as stated fails for a property-bearing sibling that is a \<open>section\<close> tag:
  the walker leaves it to the section dispatcher, and the label's dictionary is empty.
\<close>

theorem label_group_skips_section:
  "parse_properties {} (hd label_then_section) (tl label_then_section) []
     = Inr ({46, 47}, [(''info'', VNode [])])"
proof -
  have "parse_label (Tag 46 ''h2'' [] [Text ''Info'']) = Inr ''info''"
    by code_simp
  then show ?thesis
    by (simp add: label_then_section_def eval_defs insert_commute)
qed

subsection \<open>The outcomes of a parse\<close>

lemma all_tags_simps [simp]:
  "all_tags [] = []"
  "all_tags (Text s # rest) = all_tags rest"
  "all_tags (Tag i nm attrs cs # rest) = Tag i nm attrs cs # all_tags cs @ all_tags rest"
  using walk_tags [of "[Tag i nm attrs cs]" cs "[]"] by (simp_all add: all_tags_def)

lemma lists_at_empty [simp]: "lists_at R []"
  by (simp add: lists_at_def)




lemma walker_outcome_Inr [simp]: "walker_outcome R scope (Inr (h, n)) = lists_at R n"
  by (simp add: walker_outcome_def)






lemma walk_is_tag:
  "(t, sibs, a) \<in> set (walk ancs nodes) \<Longrightarrow> \<exists>i nm attrs cs. t = Tag i nm attrs cs"
  by (induction ancs nodes rule: walk.induct) auto

lemma find_first_SomeD:
  assumes "find_first f tag ancs = Some (t, sibs, a)"
  shows "f t" and "\<exists>i nm attrs cs. t = Tag i nm attrs cs"
proof -
  from assms have "(t, sibs, a) \<in> set (find_all f tag ancs)"
    by (auto simp: find_first_def split: list.splits)
  then have "f t" and "(t, sibs, a) \<in> set (walk (tag # ancs) (contents tag))"
    by (auto simp: find_all_def)
  then show "f t" and "\<exists>i nm attrs cs. t = Tag i nm attrs cs"
    by (auto dest: walk_is_tag)
qed



text \<open>
  A property name that is assigned first and carries \<open>repeat\<close> later stops the parse
  as well: \<open>append\<close> is called on the string stored before (line 86).
\<close>

lemma parse_html_append_to_scalar:
  "parse_html {} mixed_repeat_page = Inl (AttributeError ''append'')"
proof -
  have "strip ''x'' = ''x''" "strip ''y'' = ''y''" by code_simp+
  then show ?thesis
    by (simp add: mixed_repeat_page_def parse_html_def START_TAGS_def get_truthy_def
        has_attr_def store_property_def text_value_def named_def find_first_def find_all_def)
qed

subsection \<open>Calls on trees with fresh identities\<close>

lemma with_seen_simps [simp]:
  "with_seen X (Inl e) = Inl e"
  "with_seen X (Inr (h, n)) = Inr (h \<union> X, n)"
  by (simp_all add: with_seen_def)

text \<open>
  Identities in the visited set that no tag of the tree has do not change what the
  walker does: they stay in the set and the dictionary is the same.
\<close>

lemma walker_frame:
  "set (tag_ids (t # sibs)) \<inter> X = {} \<Longrightarrow>
     parse_properties (hack \<union> X) t sibs n = with_seen X (parse_properties hack t sibs n)"
  "set (tag_ids [t]) \<inter> X = {} \<Longrightarrow>
     property_value (hack \<union> X) t = with_seen X (property_value hack t)"
  "set (tag_ids cs) \<inter> X = {} \<Longrightarrow>
     parse_children_properties (hack \<union> X) cs n = with_seen X (parse_children_properties hack cs n)"
  "set (tag_ids cs) \<inter> X = {} \<Longrightarrow>
     parse_siblings_properties (hack \<union> X) cs n = with_seen X (parse_siblings_properties hack cs n)"
proof (induction hack t sibs n and hack t and hack cs n and hack cs n
    rule: parse_properties_property_value_parse_children_properties_parse_siblings_properties.induct)
  case (1 hack s sibs current_node)
  then show ?case by simp
next
  case (2 hack i nm attrs cs sibs current_node)
  let ?t = "Tag i nm attrs cs"
  from "2.prems" have i: "i \<notin> X" and fcs: "set (tag_ids cs) \<inter> X = {}"
    and fsibs: "set (tag_ids sibs) \<inter> X = {}"
    by auto
  have ins: "insert i (hack \<union> X) = insert i hack \<union> X" by auto
  show ?case
  proof (cases "i \<in> hack")
    case True
    then show ?thesis by simp
  next
    case seen: False
    with i have seen': "i \<notin> hack \<union> X" by simp
    show ?thesis
    proof (cases "nm \<in> set START_TAGS")
      case True
      from parse_label_total obtain label where l: "parse_label ?t = Inr label" by blast
      have "parse_siblings_properties (insert i hack \<union> X) sibs []
          = with_seen X (parse_siblings_properties (insert i hack) sibs [])"
        by (rule "2.IH"(1) [OF seen True l fsibs])
      with seen seen' True l ins show ?thesis
        by (cases "parse_siblings_properties (insert i hack) sibs []") auto
    next
      case label: False
      show ?thesis
      proof (cases "get_truthy attrs ''itemprop''")
        case None
        have "parse_children_properties (insert i hack \<union> X) cs current_node
            = with_seen X (parse_children_properties (insert i hack) cs current_node)"
          by (rule "2.IH"(2) [OF seen label None fcs])
        with seen seen' label None ins show ?thesis by simp
      next
        case (Some pv)
        show ?thesis
        proof (cases pv)
          case (AList xs)
          with seen seen' label Some show ?thesis by simp
        next
          case (AStr p)
          show ?thesis
          proof (cases "nm = ''section''")
            case True
            with seen seen' label Some AStr ins show ?thesis by simp
          next
            case False
            have "set (tag_ids [?t]) \<inter> X = {}" using i fcs by simp
            from "2.IH"(3) [OF seen label Some AStr False this]
            have "property_value (insert i hack \<union> X) ?t
                = with_seen X (property_value (insert i hack) ?t)" .
            with seen seen' label Some AStr False ins show ?thesis
              by (cases "property_value (insert i hack) ?t")
                 (auto split: sum.splits)
          qed
        qed
      qed
    qed
  qed
next
  case (3 hack s)
  then show ?case by simp
next
  case (4 hack i nm attrs cs)
  show ?case
  proof (cases "has_attr attrs ''itemscope''")
    case True
    from "4.prems" have "set (tag_ids cs) \<inter> X = {}" by auto
    from "4.IH" [OF True this] True show ?thesis
      by (cases "parse_children_properties hack cs []") auto
  next
    case False
    then show ?thesis by (simp split: option.splits)
  qed
next
  case (5 hack current_node)
  then show ?case by simp
next
  case (6 hack s rest current_node)
  then show ?case by simp
next
  case (7 hack i nm attrs cs rest current_node)
  let ?t = "Tag i nm attrs cs"
  from "7.prems" have frest: "set (tag_ids rest) \<inter> X = {}" by auto
  have pp: "parse_properties (hack \<union> X) ?t rest current_node
      = with_seen X (parse_properties hack ?t rest current_node)"
    by (rule "7.IH"(1) [OF "7.prems"])
  show ?case
  proof (cases "parse_properties hack ?t rest current_node")
    case (Inl e)
    with pp show ?thesis by simp
  next
    case (Inr res)
    obtain h1 n1 where res: "res = (h1, n1)" by (cases res) auto
    from "7.IH"(2) [OF Inr [unfolded res] refl frest] pp Inr res show ?thesis by simp
  qed
next
  case (8 hack current_node)
  then show ?case by simp
next
  case (9 hack s rest current_node)
  then show ?case by simp
next
  case (10 hack i nm attrs cs rest current_node)
  let ?t = "Tag i nm attrs cs"
  show ?case
  proof (cases "nm \<in> set START_TAGS")
    case True
    then show ?thesis by simp
  next
    case False
    from "10.prems" have frest: "set (tag_ids rest) \<inter> X = {}" by auto
    have pp: "parse_properties (hack \<union> X) ?t rest current_node
        = with_seen X (parse_properties hack ?t rest current_node)"
      by (rule "10.IH"(1) [OF False "10.prems"])
    show ?thesis
    proof (cases "parse_properties hack ?t rest current_node")
      case (Inl e)
      with pp False show ?thesis by simp
    next
      case (Inr res)
      obtain h1 n1 where res: "res = (h1, n1)" by (cases res) auto
      from "10.IH"(2) [OF False Inr [unfolded res] refl frest] pp Inr res False
      show ?thesis by simp
    qed
  qed
qed

lemma walk_tag_ids:
  "(t, sibs, a) \<in> set (walk ancs nodes) \<Longrightarrow> set (tag_ids [t]) \<subseteq> set (tag_ids nodes)"
proof (induction ancs nodes rule: walk.induct)
  case (1 ancs)
  then show ?case by simp
next
  case (2 ancs s rest)
  then show ?case by simp
next
  case (3 ancs i nm attrs cs rest)
  from "3.prems" consider
      "t = Tag i nm attrs cs"
    | "(t, sibs, a) \<in> set (walk (Tag i nm attrs cs # ancs) cs)"
    | "(t, sibs, a) \<in> set (walk ancs rest)"
    by auto
  then show ?case
  proof cases
    case 1
    then show ?thesis by auto
  next
    case 2
    from "3.IH"(1) [OF this] show ?thesis by auto
  next
    case 3
    from "3.IH"(2) [OF this] show ?thesis by auto
  qed
qed

lemma find_first_in_walk:
  assumes "find_first f tag ancs = Some pl"
  shows "pl \<in> set (walk (tag # ancs) (contents tag))"
proof -
  from assms have "pl \<in> set (find_all f tag ancs)"
    by (auto simp: find_first_def split: list.splits)
  then show ?thesis by (simp add: find_all_def)
qed

text \<open>
  So a call of \<open>parse_html\<close> is disturbed by the identities that earlier calls left in
  \<open>hack\<close> only through a tag of the new tree that has one of them: when no tag has,
  the call returns the dictionary that a call with an empty \<open>hack\<close> returns.
\<close>

lemma parse_html_fresh_identities:
  assumes fresh: "set (tag_ids soup) \<inter> X = {}"
  shows "parse_html X soup = with_seen X (parse_html {} soup)"
proof (cases "filter (\<lambda>p. named ''html'' (fst p)) (walk [] soup)")
  case Nil
  then show ?thesis by (simp add: parse_html_def)
next
  case (Cons rp ps)
  obtain root rsibs rancs where rp: "rp = (root, rsibs, rancs)" by (cases rp) auto
  have "(root, rsibs, rancs) \<in> set (filter (\<lambda>p. named ''html'' (fst p)) (walk [] soup))"
    using Cons rp by simp
  then have rin: "(root, rsibs, rancs) \<in> set (walk [] soup)" by simp
  show ?thesis
  proof (cases "find_first (named ''article'') root rancs")
    case None
    with Cons rp show ?thesis by (simp add: parse_html_def)
  next
    case (Some ap)
    obtain article sibs ancs where ap: "ap = (article, sibs, ancs)" by (cases ap) auto
    from Some ap have art: "find_first (named ''article'') root rancs = Some (article, sibs, ancs)"
      by simp
    from find_first_SomeD [OF art] obtain i attrs cs where
      t: "article = Tag i ''article'' attrs cs"
      by (auto simp: named_def)
    from find_first_in_walk [OF art]
    have "(article, sibs, ancs) \<in> set (walk (root # rancs) (contents root))" .
    from walk_tag_ids [OF this]
    have "set (tag_ids [article]) \<subseteq> set (tag_ids (contents root))" .
    moreover from walk_is_tag [OF rin] have "set (tag_ids (contents root)) \<subseteq> set (tag_ids [root])"
      by auto
    moreover note walk_tag_ids [OF rin]
    ultimately have "set (tag_ids [article]) \<inter> X = {}" using fresh by blast
    from walker_frame(1) [OF this, of "{}" "[]"]
    have pp: "parse_properties X article [] [] = with_seen X (parse_properties {} article [] [])"
      by simp
    have unused: "parse_properties h article sibs [] = parse_properties h article [] []" for h
      by (simp add: t START_TAGS_def)
    show ?thesis
    proof (cases "parse_properties {} article [] []")
      case (Inl e)
      with pp Cons rp art unused show ?thesis by (simp add: parse_html_def)
    next
      case (Inr res)
      obtain h1 n1 where "res = (h1, n1)" by (cases res) auto
      with Inr pp Cons rp art unused show ?thesis
        by (cases "parse_sections article ancs n1") (simp_all add: parse_html_def)
    qed
  qed
qed

subsection \<open>The walker within the recursion limit\<close>

lemma raised_simps [simp]:
  "raised (Inl e) = Inl (Raised e)"
  "raised (Inr x) = Inr x"
  by (simp_all add: raised_def)






text \<open>
  The bound on the height is needed: with two frames left, the page with one property
  is too deep.
\<close>

lemma parse_html_limited_too_deep:
  "parse_html_limited 2 {} one_property_page = Inl RecursionError"
  by (simp add: one_property_page_def parse_html_limited_def START_TAGS_def get_truthy_def
      named_def find_first_def find_all_def)

end
